theory Spec2Isabelle
  imports Complex_Main
begin

section \<open>Arrays and exceptions\<close>

text \<open>
  The structural-features segmenter (\<^verbatim>\<open>algorithms/sf/segmenter.py\<close>) works on numpy
  arrays of floats. A two-dimensional array is modelled by its number of columns
  (\<^verbatim>\<open>X.shape[1]\<close>, which numpy keeps even when there are no rows) and the list of its
  rows; \<^verbatim>\<open>X.shape[0]\<close> is the number of rows. Finite float64 values are idealised as
  real numbers: rounding and overflow are not part of the model. The exceptions the
  code can raise are values of \<open>error\<close>, and a function that can raise returns
  \<open>error + 'a\<close>.
\<close>

datatype error = ValueError | IndexError

record ndarray =
  ncols :: nat
  rows :: "real list list"

definition nrows :: "ndarray \<Rightarrow> nat" where
  "nrows X = length (rows X)"

text \<open>Every row of an array has \<open>ncols\<close> entries.\<close>

definition wf_ndarray :: "ndarray \<Rightarrow> bool" where
  "wf_ndarray X = list_all (\<lambda>r. length r = ncols X) (rows X)"

text \<open>\<^verbatim>\<open>np.zeros((n, c))\<close> for dimensions that are not negative.\<close>

definition zeros :: "nat \<Rightarrow> nat \<Rightarrow> ndarray" where
  "zeros n c = \<lparr>ncols = c, rows = replicate n (replicate c 0)\<rparr>"

text \<open>\<^verbatim>\<open>X[r, c]\<close> for indices that are not negative; out of range raises.\<close>

definition item :: "ndarray \<Rightarrow> nat \<Rightarrow> nat \<Rightarrow> error + real" where
  "item X r c =
     (if r < nrows X \<and> c < ncols X then Inr (rows X ! r ! c) else Inl IndexError)"

text \<open>A list comprehension whose element expression can raise: the first exception wins.\<close>

fun collect :: "('a \<Rightarrow> error + 'b) \<Rightarrow> 'a list \<Rightarrow> error + 'b list" where
  "collect f [] = Inr []"
| "collect f (x # xs) =
     (case f x of
        Inl e \<Rightarrow> Inl e
      | Inr y \<Rightarrow> (case collect f xs of Inl e \<Rightarrow> Inl e | Inr ys \<Rightarrow> Inr (y # ys)))"

text \<open>
  \<^verbatim>\<open>L[i, :] = v\<close> for a row index in range: the value must have the length of the row,
  or length one (numpy then broadcasts the single entry); otherwise numpy raises
  \<^verbatim>\<open>ValueError\<close>.
\<close>

definition set_row :: "ndarray \<Rightarrow> nat \<Rightarrow> real list \<Rightarrow> error + ndarray" where
  "set_row L i v =
     (if length v = ncols L then Inr (L\<lparr>rows := (rows L)[i := v]\<rparr>)
      else if length v = 1 then Inr (L\<lparr>rows := (rows L)[i := replicate (ncols L) (hd v)]\<rparr>)
      else Inl ValueError)"

section \<open>The lag transform\<close>

text \<open>
  \<^verbatim>\<open>
  def circular_shift(X):
      N = X.shape[0]
      L = np.zeros(X.shape)
      for i in xrange(N):
          L[i, :] = np.asarray([X[(i + j) % N, j] for j in xrange(N)])
      return L
  \<close>
  The loop runs over the list of row indices, with the array \<open>L\<close> as its state.
\<close>

fun circular_shift_loop :: "ndarray \<Rightarrow> nat list \<Rightarrow> ndarray \<Rightarrow> error + ndarray" where
  "circular_shift_loop X [] L = Inr L"
| "circular_shift_loop X (i # is) L =
     (case collect (\<lambda>j. item X ((i + j) mod nrows X) j) [0..<nrows X] of
        Inl e \<Rightarrow> Inl e
      | Inr v \<Rightarrow>
          (case set_row L i v of
             Inl e \<Rightarrow> Inl e
           | Inr L' \<Rightarrow> circular_shift_loop X is L'))"

definition circular_shift :: "ndarray \<Rightarrow> error + ndarray" where
  "circular_shift X = circular_shift_loop X [0..<nrows X] (zeros (nrows X) (ncols X))"

text \<open>The \<open>n \<times> n\<close> array with the given entries.\<close>

definition square_of :: "nat \<Rightarrow> (nat \<Rightarrow> nat \<Rightarrow> real) \<Rightarrow> ndarray" where
  "square_of n f = \<lparr>ncols = n, rows = map (\<lambda>i. map (\<lambda>j. f i j) [0..<n]) [0..<n]\<rparr>"


section \<open>Python indexing\<close>

text \<open>\<^verbatim>\<open>int(x)\<close> on a float truncates towards zero.\<close>

definition py_int :: "real \<Rightarrow> int" where
  "py_int x = (if 0 \<le> x then \<lfloor>x\<rfloor> else \<lceil>x\<rceil>)"

text \<open>
  \<^verbatim>\<open>xs[a:b]\<close>: a negative bound counts from the end, and bounds are clipped to the
  sequence; a slice never raises.
\<close>

definition py_slice :: "'a list \<Rightarrow> int \<Rightarrow> int \<Rightarrow> 'a list" where
  "py_slice xs a b =
     (let n = int (length xs);
          a' = (if a < 0 then max (a + n) 0 else min a n);
          b' = (if b < 0 then max (b + n) 0 else min b n)
      in take (nat (b' - a')) (drop (nat a') xs))"

text \<open>\<^verbatim>\<open>xs[j]\<close>: a negative index counts from the end; out of range raises.\<close>

definition py_item :: "'a list \<Rightarrow> int \<Rightarrow> error + 'a" where
  "py_item xs j =
     (let n = int (length xs)
      in if - n \<le> j \<and> j < n then Inr (xs ! nat (if j < 0 then j + n else j))
         else Inl IndexError)"

section \<open>The embedder\<close>

text \<open>
  \<^verbatim>\<open>
  def embedded_space(X, m, tau=1):
      N = X.shape[0] - int(np.ceil(m))
      Y = np.zeros((N, int(np.ceil(X.shape[1] * m))))
      for i in xrange(N):
          rem = int((m % 1) * X.shape[1])  # Reminder for float m
          Y[i, :] = np.concatenate((X[i:i + int(m), :].flatten(),
                                   X[i + int(m), :rem]))
      return Y
  \<close>
  \<^verbatim>\<open>np.zeros\<close> raises \<^verbatim>\<open>ValueError\<close> on a negative dimension, \<^verbatim>\<open>m % 1\<close> is the
  fractional part of \<open>m\<close>, and the row assignment raises when the concatenation
  has not the width of \<open>Y\<close>. The fractional part and the two products are taken
  without rounding. float64 gives the same where they are float64 values, as they are
  for a whole \<open>m\<close> and for \<open>m = 1.5\<close>; for other orders the rounding of the code can
  decide differently whether the widths agree, and the results of \<^verbatim>\<open>embedded_space\<close>
  given below are for whole orders and for \<open>m = 1.5\<close> only.
\<close>

fun embedded_space_loop :: "ndarray \<Rightarrow> real \<Rightarrow> nat list \<Rightarrow> ndarray \<Rightarrow> error + ndarray" where
  "embedded_space_loop X m [] Y = Inr Y"
| "embedded_space_loop X m (i # is) Y =
     (let rem = py_int (frac m * real (ncols X))
      in case py_item (rows X) (int i + py_int m) of
           Inl e \<Rightarrow> Inl e
         | Inr r \<Rightarrow>
             (case set_row Y i
                     (concat (py_slice (rows X) (int i) (int i + py_int m)) @ py_slice r 0 rem) of
                Inl e \<Rightarrow> Inl e
              | Inr Y' \<Rightarrow> embedded_space_loop X m is Y'))"

definition embedded_space :: "ndarray \<Rightarrow> real \<Rightarrow> error + ndarray" where
  "embedded_space X m =
     (let N = int (nrows X) - \<lceil>m\<rceil>;
          C = \<lceil>real (ncols X) * m\<rceil>
      in if N < 0 \<or> C < 0 then Inl ValueError
         else embedded_space_loop X m [0..<nat N] (zeros (nat N) (nat C)))"

section \<open>The structure filter\<close>

text \<open>
  \<^verbatim>\<open>
  def gaussian_filter(X, M=8, axis=0):
      for i in xrange(X.shape[axis]):
          if axis == 1:
              X[:, i] = filters.gaussian_filter(X[:, i], sigma=M / 2.)
          elif axis == 0:
              X[i, :] = filters.gaussian_filter(X[i, :], sigma=M / 2.)
      return X
  \<close>
  scipy's one-dimensional filter is not part of the repository: it is the parameter
  \<open>gf\<close>, which gives entry \<open>i\<close> of the filtered vector (the output of scipy's filter
  has the shape of its input). The array is filtered in place, column by column or row
  by row. \<^verbatim>\<open>X.shape[axis]\<close> raises \<^verbatim>\<open>IndexError\<close> for an axis a matrix has not.
\<close>

definition column :: "ndarray \<Rightarrow> nat \<Rightarrow> real list" where
  "column X j = map (\<lambda>r. r ! j) (rows X)"

definition filter1d :: "(real \<Rightarrow> real list \<Rightarrow> nat \<Rightarrow> real) \<Rightarrow> real \<Rightarrow> real list \<Rightarrow> real list" where
  "filter1d gf sigma xs = map (gf sigma xs) [0..<length xs]"

definition set_column :: "ndarray \<Rightarrow> nat \<Rightarrow> real list \<Rightarrow> ndarray" where
  "set_column X j v = X\<lparr>rows := map (\<lambda>(r, x). r[j := x]) (zip (rows X) v)\<rparr>"

fun gaussian_filter_cols ::
  "(real \<Rightarrow> real list \<Rightarrow> nat \<Rightarrow> real) \<Rightarrow> real \<Rightarrow> nat list \<Rightarrow> ndarray \<Rightarrow> ndarray" where
  "gaussian_filter_cols gf M [] X = X"
| "gaussian_filter_cols gf M (i # is) X =
     gaussian_filter_cols gf M is (set_column X i (filter1d gf (M / 2) (column X i)))"

fun gaussian_filter_rows ::
  "(real \<Rightarrow> real list \<Rightarrow> nat \<Rightarrow> real) \<Rightarrow> real \<Rightarrow> nat list \<Rightarrow> ndarray \<Rightarrow> ndarray" where
  "gaussian_filter_rows gf M [] X = X"
| "gaussian_filter_rows gf M (i # is) X =
     gaussian_filter_rows gf M is (X\<lparr>rows := (rows X)[i := filter1d gf (M / 2) (rows X ! i)]\<rparr>)"

definition gaussian_filter ::
  "(real \<Rightarrow> real list \<Rightarrow> nat \<Rightarrow> real) \<Rightarrow> ndarray \<Rightarrow> real \<Rightarrow> int \<Rightarrow> error + ndarray" where
  "gaussian_filter gf X M axis =
     (if axis = 1 then Inr (gaussian_filter_cols gf M [0..<ncols X] X)
      else if axis = 0 then Inr (gaussian_filter_rows gf M [0..<nrows X] X)
      else if axis = - 1 \<or> axis = - 2 then Inr X
      else Inl IndexError)"

text \<open>\<^verbatim>\<open>X.T\<close>\<close>

definition transpose_nd :: "ndarray \<Rightarrow> ndarray" where
  "transpose_nd X = \<lparr>ncols = nrows X, rows = map (column X) [0..<ncols X]\<rparr>"

section \<open>The novelty curve\<close>

text \<open>
  Dividing by zero gives numpy's \<^verbatim>\<open>nan\<close> and \<^verbatim>\<open>inf\<close> (with a warning, not an
  exception), and every comparison with \<^verbatim>\<open>nan\<close> is false. The entries of a novelty
  curve are therefore reals extended by these values.
\<close>

datatype npfloat = Fin real | PInf | NInf | NaN

definition np_div :: "real \<Rightarrow> real \<Rightarrow> npfloat" where
  "np_div x y =
     (if y \<noteq> 0 then Fin (x / y) else if x = 0 then NaN else if 0 < x then PInf else NInf)"

fun fl_less :: "npfloat \<Rightarrow> npfloat \<Rightarrow> bool" where
  "fl_less (Fin a) (Fin b) = (a < b)"
| "fl_less NInf (Fin b) = True"
| "fl_less NInf PInf = True"
| "fl_less (Fin a) PInf = True"
| "fl_less _ _ = False"

text \<open>
  Addition, multiplication and the mean without rounding. float64 arithmetic agrees
  with them wherever the exact result is a float64 value; elsewhere it rounds. They
  serve as an instance of the arithmetic that \<^verbatim>\<open>pick_peaks\<close> is given.
\<close>

fun fl_add :: "npfloat \<Rightarrow> npfloat \<Rightarrow> npfloat" where
  "fl_add (Fin a) (Fin b) = Fin (a + b)"
| "fl_add NaN _ = NaN"
| "fl_add _ NaN = NaN"
| "fl_add PInf NInf = NaN"
| "fl_add NInf PInf = NaN"
| "fl_add PInf _ = PInf"
| "fl_add _ PInf = PInf"
| "fl_add NInf _ = NInf"
| "fl_add _ NInf = NInf"

text \<open>Multiplying and dividing an extended value by a finite one.\<close>

fun fl_scale :: "npfloat \<Rightarrow> real \<Rightarrow> npfloat" where
  "fl_scale (Fin a) d = Fin (a * d)"
| "fl_scale NaN d = NaN"
| "fl_scale PInf d = (if 0 < d then PInf else if d < 0 then NInf else NaN)"
| "fl_scale NInf d = (if 0 < d then NInf else if d < 0 then PInf else NaN)"

fun fl_div :: "npfloat \<Rightarrow> real \<Rightarrow> npfloat" where
  "fl_div (Fin a) d = np_div a d"
| "fl_div NaN d = NaN"
| "fl_div PInf d = (if d < 0 then NInf else PInf)"
| "fl_div NInf d = (if d < 0 then PInf else NInf)"

text \<open>The sum over the length; \<^verbatim>\<open>nan\<close> for an empty array.\<close>

definition fl_mean :: "npfloat list \<Rightarrow> npfloat" where
  "fl_mean nc = fl_div (foldl fl_add (Fin 0) nc) (real (length nc))"

text \<open>\<^verbatim>\<open>scipy.spatial.distance.euclidean\<close> on two vectors of one length.\<close>

definition euclidean :: "real list \<Rightarrow> real list \<Rightarrow> real" where
  "euclidean u v = sqrt (\<Sum>(a, b)\<leftarrow>zip u v. (a - b)\<^sup>2)"

text \<open>
  \<^verbatim>\<open>
  def compute_nc(X):
      N = X.shape[0]
      nc = np.zeros(N)
      for i in xrange(N - 1):
          nc[i] = distance.euclidean(X[i, :], X[i + 1, :])
      # Normalize
      nc += np.abs(nc.min())
      nc /= nc.max()
      return nc
  \<close>
  \<^verbatim>\<open>nc.min()\<close> raises \<^verbatim>\<open>ValueError\<close> on an empty array.
\<close>

fun compute_nc_loop :: "ndarray \<Rightarrow> nat list \<Rightarrow> real list \<Rightarrow> real list" where
  "compute_nc_loop X [] nc = nc"
| "compute_nc_loop X (i # is) nc =
     compute_nc_loop X is (nc[i := euclidean (rows X ! i) (rows X ! (i + 1))])"

definition compute_nc :: "ndarray \<Rightarrow> error + npfloat list" where
  "compute_nc X =
     (let N = nrows X;
          nc = compute_nc_loop X [0..<N - 1] (replicate N 0)
      in if nc = [] then Inl ValueError
         else let nc' = map (\<lambda>x. x + \<bar>Min (set nc)\<bar>) nc
              in Inr (map (\<lambda>x. np_div x (Max (set nc'))) nc'))"

section \<open>The peak picker\<close>

text \<open>
  \<^verbatim>\<open>
  def pick_peaks(nc, L=16, offset_denom=0.1):
      offset = nc.mean() * float(offset_denom)
      th = filters.median_filter(nc, size=L) + offset
      peaks = []
      for i in xrange(1, nc.shape[0] - 1):
          # is it a peak?
          if nc[i - 1] < nc[i] and nc[i] > nc[i + 1]:
              # is it above the threshold?
              if nc[i] > th[i]:
                  peaks.append(i)
      return peaks
  \<close>
  The threshold is computed by numpy and scipy in float64: \<^verbatim>\<open>nc.mean()\<close>, the product
  with \<^verbatim>\<open>float(offset_denom)\<close>, scipy's median filter (entry \<open>i\<close> of the filtered curve)
  and the sum with the offset. These four operations are parameters of the model, so that
  nothing is assumed about how they round. The comparisons are exact on float64 values.
\<close>

record peak_ops =
  np_median_filter :: "int \<Rightarrow> npfloat list \<Rightarrow> nat \<Rightarrow> npfloat"
  np_mean :: "npfloat list \<Rightarrow> npfloat"
  np_multiply :: "npfloat \<Rightarrow> real \<Rightarrow> npfloat"
  np_add :: "npfloat \<Rightarrow> npfloat \<Rightarrow> npfloat"

definition threshold :: "peak_ops \<Rightarrow> npfloat list \<Rightarrow> int \<Rightarrow> real \<Rightarrow> nat \<Rightarrow> npfloat" where
  "threshold ops nc L offset_denom i =
     (let offset = np_multiply ops (np_mean ops nc) offset_denom
      in np_add ops (np_median_filter ops L nc i) offset)"

fun pick_peaks_loop :: "npfloat list \<Rightarrow> (nat \<Rightarrow> npfloat) \<Rightarrow> nat list \<Rightarrow> nat list \<Rightarrow> nat list" where
  "pick_peaks_loop nc th [] peaks = peaks"
| "pick_peaks_loop nc th (i # is) peaks =
     pick_peaks_loop nc th is
       (if fl_less (nc ! (i - 1)) (nc ! i) \<and> fl_less (nc ! (i + 1)) (nc ! i)
        then (if fl_less (th i) (nc ! i) then peaks @ [i] else peaks)
        else peaks)"

definition pick_peaks :: "peak_ops \<Rightarrow> npfloat list \<Rightarrow> int \<Rightarrow> real \<Rightarrow> nat list" where
  "pick_peaks ops nc L offset_denom =
     pick_peaks_loop nc (threshold ops nc L offset_denom) [1..<length nc - 1] []"

section \<open>The segmenter\<close>

text \<open>
  The five parameters \<^verbatim>\<open>process\<close> reads from \<^verbatim>\<open>self.config\<close>.
\<close>

record config =
  Mp_adaptive :: int
  offset_thres :: real
  M_gaussian :: real
  m_embedded :: real
  k_nearest :: real

text \<open>
  What \<^verbatim>\<open>process\<close> calls outside this file: librosa's recurrence matrix (entry
  \<open>(i, j)\<close> of the \<open>t \<times> t\<close> result for data with \<open>t\<close> columns, given the data and
  \<open>k\<close>), scipy's Gaussian filter, the operations of the peak picker, and
  \<^verbatim>\<open>SegmenterInterface._postprocess\<close>,
  which receives the estimated times and labels and returns the pair that \<^verbatim>\<open>process\<close>
  returns. The library functions are taken to return a value of the shape their
  documentation gives; \<^verbatim>\<open>_postprocess\<close> may raise.
\<close>

record external =
  recurrence_matrix :: "ndarray \<Rightarrow> real \<Rightarrow> nat \<Rightarrow> nat \<Rightarrow> real"
  gaussian_filter1d :: "real \<Rightarrow> real list \<Rightarrow> nat \<Rightarrow> real"
  peak_arith :: peak_ops
  postprocess :: "real list \<Rightarrow> real list \<Rightarrow> error + real list \<times> real list"

text \<open>
  \<^verbatim>\<open>
  if F.shape[0] > 20:
      E = embedded_space(F, m)
      R = librosa.segment.recurrence_matrix(E.T, k=k * int(F.shape[0]), width=0,
                                            metric="seuclidean", sym=True).astype(np.float32)
      L = circular_shift(R)
      SF = gaussian_filter(L.T, M=M, axis=1)
      SF = gaussian_filter(L.T, M=1, axis=0)
      nc = compute_nc(SF)
      est_bounds = pick_peaks(nc, L=Mp, offset_denom=od)
      est_bounds = np.asarray(est_bounds) + int(np.ceil(m / 2.))
  else:
      est_bounds = []
  \<close>
  \<^verbatim>\<open>L.T\<close> is a view of \<open>L\<close> and \<^verbatim>\<open>gaussian_filter\<close> writes into its argument, so the
  second call filters the result of the first.
\<close>

definition estimate_bounds :: "external \<Rightarrow> config \<Rightarrow> ndarray \<Rightarrow> error + int list" where
  "estimate_bounds ext cfg F =
     (let Mp = Mp_adaptive cfg; od = offset_thres cfg; M = M_gaussian cfg;
          m = m_embedded cfg; k = k_nearest cfg
      in if nrows F > 20 then
           (case embedded_space F m of
              Inl e \<Rightarrow> Inl e
            | Inr E \<Rightarrow>
                (let R = square_of (nrows E)
                           (recurrence_matrix ext (transpose_nd E) (k * real (nrows F)))
                 in case circular_shift R of
                      Inl e \<Rightarrow> Inl e
                    | Inr L \<Rightarrow>
                        (case gaussian_filter (gaussian_filter1d ext) (transpose_nd L) M 1 of
                           Inl e \<Rightarrow> Inl e
                         | Inr SF1 \<Rightarrow>
                             (case gaussian_filter (gaussian_filter1d ext) SF1 1 0 of
                                Inl e \<Rightarrow> Inl e
                              | Inr SF \<Rightarrow>
                                  (case compute_nc SF of
                                     Inl e \<Rightarrow> Inl e
                                   | Inr nc \<Rightarrow>
                                       Inr (map (\<lambda>p. int p + \<lceil>m / 2\<rceil>)
                                              (pick_peaks (peak_arith ext) nc Mp od)))))))
         else Inr [])"

text \<open>
  \<^verbatim>\<open>
  bound_idxs = np.concatenate(([0], est_bounds, [len(frame_times) - 1]))
  bound_idxs = np.asarray(bound_idxs, dtype=int)
  est_times = np.concatenate(([0], frame_times[bound_idxs], [dur]))
  est_labels = np.ones(len(est_times) - 1) * -1
  \<close>
  \<open>process_est\<close> is \<^verbatim>\<open>process\<close> up to this point: the features, frame times and
  duration that \<^verbatim>\<open>_preprocess\<close> delivers are its arguments, and its result is the pair
  \<^verbatim>\<open>(est_times, est_labels)\<close> that is handed to \<^verbatim>\<open>_postprocess\<close>.
\<close>

definition process_est ::
  "external \<Rightarrow> config \<Rightarrow> ndarray \<Rightarrow> real list \<Rightarrow> real \<Rightarrow> error + real list \<times> real list" where
  "process_est ext cfg F frame_times dur =
     (case estimate_bounds ext cfg F of
        Inl e \<Rightarrow> Inl e
      | Inr est_bounds \<Rightarrow>
          (let bound_idxs = [0] @ est_bounds @ [int (length frame_times) - 1]
           in case collect (py_item frame_times) bound_idxs of
                Inl e \<Rightarrow> Inl e
              | Inr ts \<Rightarrow>
                  (let est_times = [0] @ ts @ [dur];
                       est_labels = replicate (length est_times - 1) (- 1)
                   in Inr (est_times, est_labels))))"

text \<open>
  \<^verbatim>\<open>
  est_times, est_labels = self._postprocess(est_times, est_labels)
  return est_times, est_labels
  \<close>
\<close>

definition process ::
  "external \<Rightarrow> config \<Rightarrow> ndarray \<Rightarrow> real list \<Rightarrow> real \<Rightarrow> error + real list \<times> real list" where
  "process ext cfg F frame_times dur =
     (case process_est ext cfg F frame_times dur of
        Inl e \<Rightarrow> Inl e
      | Inr (est_times, est_labels) \<Rightarrow> postprocess ext est_times est_labels)"

section \<open>The segmentation that is returned\<close>

text \<open>
  Modelled from the spec: \<^verbatim>\<open>SegmenterInterface._postprocess\<close> (module
  \<^verbatim>\<open>msaf.algorithms.interface\<close>), which \<^verbatim>\<open>process\<close> calls last and whose result it
  returns, is not among the source files. The spec's boundary assembler (section 4.7)
  has the boundaries deduplicated and sorted ascending, with one constant label per
  segment. Lines 183 to 191 of \<^verbatim>\<open>process\<close> combine the indices, map them to times, add
  the two sentinels and make the labels, but they neither deduplicate nor sort. These two
  steps are therefore taken to be what \<^verbatim>\<open>_postprocess\<close> does to the times it receives;
  every boundary that goes takes one label with it.
\<close>

definition postprocess_spec :: "real list \<Rightarrow> real list \<Rightarrow> error + real list \<times> real list" where
  "postprocess_spec est_times est_labels =
     (let boundary_times = sort (remdups est_times)
      in Inr (boundary_times, take (length boundary_times - 1) est_labels))"

text \<open>The spec's entry point: \<^verbatim>\<open>process\<close> with this \<^verbatim>\<open>_postprocess\<close>.\<close>

definition segment ::
  "external \<Rightarrow> config \<Rightarrow> ndarray \<Rightarrow> real list \<Rightarrow> real \<Rightarrow> error + real list \<times> real list" where
  "segment ext cfg F frame_times dur =
     process (ext\<lparr>postprocess := postprocess_spec\<rparr>) cfg F frame_times dur"

section \<open>Auxiliary notions for the proofs\<close>

text \<open>Row \<open>i\<close> of the lag matrix of a square matrix.\<close>

definition shifted_row :: "ndarray \<Rightarrow> nat \<Rightarrow> real list" where
  "shifted_row X i = map (\<lambda>j. rows X ! ((i + j) mod nrows X) ! j) [0..<nrows X]"

text \<open>Applying the transform \<open>k\<close> times in a row, stopping at the first exception.\<close>

fun circular_shift_pow :: "nat \<Rightarrow> ndarray \<Rightarrow> error + ndarray" where
  "circular_shift_pow 0 X = Inr X"
| "circular_shift_pow (Suc k) X =
     (case circular_shift X of Inl e \<Rightarrow> Inl e | Inr L \<Rightarrow> circular_shift_pow k L)"

text \<open>The test of the loop body in \<^verbatim>\<open>pick_peaks\<close>.\<close>

definition is_peak :: "npfloat list \<Rightarrow> (nat \<Rightarrow> npfloat) \<Rightarrow> nat \<Rightarrow> bool" where
  "is_peak nc th i =
     (fl_less (nc ! (i - 1)) (nc ! i) \<and> fl_less (nc ! (i + 1)) (nc ! i) \<and> fl_less (th i) (nc ! i))"

text \<open>The curve \<^verbatim>\<open>compute_nc\<close> holds before it normalises.\<close>

definition distances :: "ndarray \<Rightarrow> real list" where
  "distances X = compute_nc_loop X [0..<nrows X - 1] (replicate (nrows X) 0)"

text \<open>Row \<open>i\<close> of the embedding, for an order that is not negative.\<close>

definition embedded_row :: "ndarray \<Rightarrow> real \<Rightarrow> nat \<Rightarrow> real list" where
  "embedded_row X m i =
     concat (take (nat \<lfloor>m\<rfloor>) (drop i (rows X))) @
     take (nat \<lfloor>frac m * real (ncols X)\<rfloor>) (rows X ! (i + nat \<lfloor>m\<rfloor>))"

text \<open>The peak picker's operations without rounding, around a given median filter.\<close>

definition exact_ops :: "(int \<Rightarrow> npfloat list \<Rightarrow> nat \<Rightarrow> npfloat) \<Rightarrow> peak_ops" where
  "exact_ops mf =
     \<lparr>np_median_filter = mf, np_mean = fl_mean, np_multiply = fl_scale, np_add = fl_add\<rparr>"

text \<open>
  An instance of the functions from outside, for running \<^verbatim>\<open>process\<close> on concrete
  inputs: a recurrence matrix of zeros, filters that leave their input as it is, and a
  \<^verbatim>\<open>_postprocess\<close> that returns its arguments.
\<close>

definition identity_external :: external where
  "identity_external =
     \<lparr>recurrence_matrix = (\<lambda>data k i j. 0),
      gaussian_filter1d = (\<lambda>sigma xs i. xs ! i),
      peak_arith = exact_ops (\<lambda>L nc i. nc ! i),
      postprocess = (\<lambda>est_times est_labels. Inr (est_times, est_labels))\<rparr>"


section \<open>Properties of the lag transform\<close>

lemma collect_total:
  "(\<And>x. x \<in> set xs \<Longrightarrow> f x = Inr (g x)) \<Longrightarrow> collect f xs = Inr (map g xs)"
  by (induction xs) auto

lemma collect_shifted_row:
  assumes "ncols X = nrows X"
  shows "collect (\<lambda>j. item X ((i + j) mod nrows X) j) [0..<nrows X] = Inr (shifted_row X i)"
  unfolding shifted_row_def
  by (rule collect_total) (use assms in \<open>auto simp: item_def\<close>)

lemma circular_shift_loop_square:
  assumes "ncols X = nrows X" "ncols L = nrows X" "nrows L = nrows X" "set is \<subseteq> {0..<nrows X}"
  shows "circular_shift_loop X is L =
    Inr \<lparr>ncols = nrows X,
         rows = map (\<lambda>i. if i \<in> set is then shifted_row X i else rows L ! i) [0..<nrows X]\<rparr>"
  using assms
proof (induction "is" arbitrary: L)
  case Nil
  then show ?case by (cases L) (auto simp: nrows_def intro!: nth_equalityI)
next
  case (Cons i "is")
  let ?L' = "L\<lparr>rows := (rows L)[i := shifted_row X i]\<rparr>"
  have len: "length (shifted_row X i) = ncols L"
    using Cons.prems by (simp add: shifted_row_def)
  have step: "set_row L i (shifted_row X i) = Inr ?L'"
    using len by (simp add: set_row_def)
  have "circular_shift_loop X (i # is) L = circular_shift_loop X is ?L'"
    using Cons.prems step by (simp add: collect_shifted_row)
  also have "\<dots> = Inr \<lparr>ncols = nrows X,
         rows = map (\<lambda>k. if k \<in> set is then shifted_row X k else rows ?L' ! k) [0..<nrows X]\<rparr>"
    using Cons.prems by (intro Cons.IH) (auto simp: nrows_def)
  also have "map (\<lambda>k. if k \<in> set is then shifted_row X k else rows ?L' ! k) [0..<nrows X]
     = map (\<lambda>k. if k \<in> set (i # is) then shifted_row X k else rows L ! k) [0..<nrows X]"
    using Cons.prems by (auto simp: nrows_def nth_list_update)
  finally show ?case .
qed

lemma circular_shift_square:
  assumes "ncols X = nrows X"
  shows "circular_shift X = Inr (square_of (nrows X) (\<lambda>i j. rows X ! ((i + j) mod nrows X) ! j))"
  unfolding circular_shift_def
  by (subst circular_shift_loop_square)
     (use assms in \<open>auto simp: zeros_def nrows_def square_of_def shifted_row_def\<close>)

lemma nrows_square_of [simp]: "nrows (square_of n f) = n"
  and ncols_square_of [simp]: "ncols (square_of n f) = n"
  by (simp_all add: square_of_def nrows_def)

lemma rows_square_of [simp]: "i < n \<Longrightarrow> j < n \<Longrightarrow> rows (square_of n f) ! i ! j = f i j"
  by (simp add: square_of_def)

lemma wf_square_of [simp]: "wf_ndarray (square_of n f)"
  by (simp add: wf_ndarray_def square_of_def list_all_iff)

lemma square_of_cong:
  "(\<And>i j. i < n \<Longrightarrow> j < n \<Longrightarrow> f i j = g i j) \<Longrightarrow> square_of n f = square_of n g"
  by (simp add: square_of_def)

lemma square_of_self:
  assumes "wf_ndarray X" "ncols X = nrows X"
  shows "square_of (nrows X) (\<lambda>i j. rows X ! i ! j) = X"
proof -
  have "map (\<lambda>i. map (\<lambda>j. rows X ! i ! j) [0..<nrows X]) [0..<nrows X] = rows X"
    using assms by (auto simp: nrows_def wf_ndarray_def list_all_length intro!: nth_equalityI)
  then show ?thesis using assms by (cases X) (simp add: square_of_def)
qed

lemma circular_shift_pow_square:
  "circular_shift_pow k (square_of n f) = Inr (square_of n (\<lambda>i j. f ((i + k * j) mod n) j))"
proof (induction k arbitrary: f)
  case 0
  show ?case by (auto intro!: square_of_cong)
next
  case (Suc k)
  have "circular_shift (square_of n f) = Inr (square_of n (\<lambda>i j. f ((i + j) mod n) j))"
    by (subst circular_shift_square) (auto intro!: square_of_cong)
  then show ?case
    by (auto simp: Suc.IH intro!: square_of_cong arg_cong2[where f=f] simp: mod_simps algebra_simps)
qed

text \<open>
  Claim C6. For every \<open>n \<times> n\<close> matrix \<open>R\<close>, \<^verbatim>\<open>circular_shift\<close> returns without an
  exception an \<open>n \<times> n\<close> matrix \<open>L\<close> with \<open>L[i][j] = R[(i + j) mod n][j]\<close> for all
  \<open>i, j < n\<close>; for \<open>n = 0\<close> the result is the empty matrix.
\<close>

theorem circular_shift_entries:
  assumes "wf_ndarray R" and "nrows R = n" and "ncols R = n"
  shows "\<exists>L. circular_shift R = Inr L \<and> wf_ndarray L \<and> nrows L = n \<and> ncols L = n \<and>
           (\<forall>i<n. \<forall>j<n. rows L ! i ! j = rows R ! ((i + j) mod n) ! j) \<and>
           (n = 0 \<longrightarrow> L = \<lparr>ncols = 0, rows = []\<rparr>)"
  using assms by (auto simp: circular_shift_square) (simp add: square_of_def)

theorem circular_shift_entries_witness:
  "wf_ndarray \<lparr>ncols = 2, rows = [[1, 2], [3, 4]]\<rparr> \<and>
   nrows \<lparr>ncols = 2, rows = [[1, 2], [3, 4]]\<rparr> = 2 \<and>
   (\<exists>L. circular_shift \<lparr>ncols = 2, rows = [[1, 2], [3, 4]]\<rparr> = Inr L \<and>
        rows L ! 1 ! 1 = rows \<lparr>ncols = 2, rows = [[1, 2], [3, 4]]\<rparr> ! 0 ! 1) \<and>
   wf_ndarray \<lparr>ncols = 0, rows = []\<rparr> \<and>
   circular_shift \<lparr>ncols = 0, rows = []\<rparr> = Inr \<lparr>ncols = 0, rows = []\<rparr>"
proof -
  have a: "wf_ndarray \<lparr>ncols = 2, rows = [[1, 2], [3, 4]]\<rparr>"
    and b: "nrows \<lparr>ncols = 2, rows = [[1, 2], [3, 4]]\<rparr> = 2"
    and c: "ncols \<lparr>ncols = 2, rows = [[1, 2], [3, 4]]\<rparr> = 2"
    and a0: "wf_ndarray \<lparr>ncols = 0, rows = []\<rparr>"
    and b0: "nrows \<lparr>ncols = 0, rows = []\<rparr> = 0"
    and c0: "ncols \<lparr>ncols = 0, rows = []\<rparr> = 0"
    by (simp_all add: wf_ndarray_def nrows_def)
  from circular_shift_entries [OF a b c] circular_shift_entries [OF a0 b0 c0] a a0 b
  show ?thesis by force
qed


text \<open>
  Claim C3 states that applying \<^verbatim>\<open>circular_shift\<close> twice gives the matrix back. On a
  \<open>3 \<times> 3\<close> matrix it does not: the second application shifts column \<open>j\<close> by \<open>j\<close> again.
\<close>

theorem circular_shift_twice_counterexample:
  "circular_shift \<lparr>ncols = 3, rows = [[1, 2, 3], [4, 5, 6], [7, 8, 9]]\<rparr>
     = Inr \<lparr>ncols = 3, rows = [[1, 5, 9], [4, 8, 3], [7, 2, 6]]\<rparr> \<and>
   circular_shift \<lparr>ncols = 3, rows = [[1, 5, 9], [4, 8, 3], [7, 2, 6]]\<rparr>
     = Inr \<lparr>ncols = 3, rows = [[1, 8, 6], [4, 2, 9], [7, 5, 3]]\<rparr> \<and>
   \<lparr>ncols = 3, rows = [[1, 8, 6], [4, 2, 9], [7, 5, 3]]\<rparr>
     \<noteq> \<lparr>ncols = 3, rows = [[1, 2, 3], [4, 5, 6], [7, 8, 9 :: real]]\<rparr>"
  by (simp add: circular_shift_def nrows_def zeros_def item_def set_row_def upt_rec)


text \<open>
  Claim C3, amended. For every \<open>n \<times> n\<close> matrix \<open>R\<close>, applying \<^verbatim>\<open>circular_shift\<close>
  \<open>n\<close> times gives \<open>R\<close> back; two applications give \<open>R\<close> back when \<open>n \<le> 2\<close>.
\<close>

theorem circular_shift_periodic:
  assumes "wf_ndarray R" and "nrows R = n" and "ncols R = n"
  shows "circular_shift_pow n R = Inr R \<and> (n \<le> 2 \<longrightarrow> circular_shift_pow 2 R = Inr R)"
proof -
  define f where "f = (\<lambda>i j. rows R ! i ! j)"
  have R: "R = square_of n f"
    using square_of_self[of R] assms by (simp add: f_def)
  have "circular_shift_pow n (square_of n f) = Inr (square_of n (\<lambda>i j. f ((i + n * j) mod n) j))"
    by (rule circular_shift_pow_square)
  also have "square_of n (\<lambda>i j. f ((i + n * j) mod n) j) = square_of n f"
    by (rule square_of_cong) simp
  finally have 1: "circular_shift_pow n R = Inr R"
    using R by simp
  have 2: "circular_shift_pow 2 R = Inr R" if "n \<le> 2"
  proof -
    have *: "(i + 2 * j) mod n = i" if "i < n" "j < n" for i j
    proof -
      from \<open>n \<le> 2\<close> consider "n = 0" | "n = 1" | "n = 2" by linarith
      then show ?thesis using that by cases simp_all
    qed
    have "circular_shift_pow 2 (square_of n f) = Inr (square_of n (\<lambda>i j. f ((i + 2 * j) mod n) j))"
      by (rule circular_shift_pow_square)
    also have "square_of n (\<lambda>i j. f ((i + 2 * j) mod n) j) = square_of n f"
      by (rule square_of_cong) (simp add: *)
    finally show ?thesis using R by simp
  qed
  show ?thesis using 1 2 by simp
qed


theorem circular_shift_periodic_witness:
  "wf_ndarray \<lparr>ncols = 3, rows = [[1, 2, 3], [4, 5, 6], [7, 8, 9]]\<rparr> \<and>
   circular_shift_pow 3 \<lparr>ncols = 3, rows = [[1, 2, 3], [4, 5, 6], [7, 8, 9]]\<rparr>
     = Inr \<lparr>ncols = 3, rows = [[1, 2, 3], [4, 5, 6], [7, 8, 9]]\<rparr> \<and>
   wf_ndarray \<lparr>ncols = 2, rows = [[1, 2], [3, 4]]\<rparr> \<and> (2 :: nat) \<le> 2 \<and>
   circular_shift_pow 2 \<lparr>ncols = 2, rows = [[1, 2], [3, 4]]\<rparr>
     = Inr \<lparr>ncols = 2, rows = [[1, 2], [3, 4]]\<rparr>"
proof -
  have a: "wf_ndarray \<lparr>ncols = 3, rows = [[1, 2, 3], [4, 5, 6], [7, 8, 9]]\<rparr>"
    and b: "nrows \<lparr>ncols = 3, rows = [[1, 2, 3], [4, 5, 6], [7, 8, 9]]\<rparr> = 3"
    and c: "ncols \<lparr>ncols = 3, rows = [[1, 2, 3], [4, 5, 6], [7, 8, 9]]\<rparr> = 3"
    and a2: "wf_ndarray \<lparr>ncols = 2, rows = [[1, 2], [3, 4]]\<rparr>"
    and b2: "nrows \<lparr>ncols = 2, rows = [[1, 2], [3, 4]]\<rparr> = 2"
    and c2: "ncols \<lparr>ncols = 2, rows = [[1, 2], [3, 4]]\<rparr> = 2"
    by (simp_all add: wf_ndarray_def nrows_def)
  from circular_shift_periodic [OF a b c] circular_shift_periodic [OF a2 b2 c2] a a2
  show ?thesis by simp
qed


section \<open>Properties of the peak picker\<close>

lemma pick_peaks_loop_filter:
  "pick_peaks_loop nc th is peaks = peaks @ filter (is_peak nc th) is"
  by (induction "is" arbitrary: peaks) (auto simp: is_peak_def)

lemma pick_peaks_filter:
  "pick_peaks ops nc L od = filter (is_peak nc (threshold ops nc L od)) [1..<length nc - 1]"
  by (simp add: pick_peaks_def pick_peaks_loop_filter)

lemma fl_less_irrefl: "\<not> fl_less x x"
  by (cases x) auto

lemma flat_no_peak:
  assumes "nc ! (i - 1) = nc ! i \<or> nc ! (i + 1) = nc ! i"
  shows "\<not> is_peak nc th i"
  using assms by (auto simp: is_peak_def fl_less_irrefl)

text \<open>
  Claim C8. With the threshold \<open>th[i] = median_filter(nc, size=L)[i] + mean(nc) * offset_denom\<close>,
  \<^verbatim>\<open>pick_peaks\<close> returns the index \<open>i\<close> if and only if \<open>1 \<le> i \<le> n - 2\<close>,
  \<open>nc[i-1] < nc[i]\<close>, \<open>nc[i] > nc[i+1]\<close> and \<open>nc[i] > th[i]\<close>. Consequently no index
  of a region \<open>a..b\<close> (of at least two frames) on which the curve is constant is returned.
  The sum, the product, the mean and the median filter are the float64 operations of
  numpy and scipy, whatever they round to.
\<close>

theorem pick_peaks_iff:
  "(i \<in> set (pick_peaks ops nc L offset_denom) \<longleftrightarrow>
      1 \<le> i \<and> i + 2 \<le> length nc \<and>
      fl_less (nc ! (i - 1)) (nc ! i) \<and> fl_less (nc ! (i + 1)) (nc ! i) \<and>
      fl_less (np_add ops (np_median_filter ops L nc i)
                 (np_multiply ops (np_mean ops nc) offset_denom))
              (nc ! i)) \<and>
   (\<forall>a b. a < b \<and> b < length nc \<and> (\<forall>j. a \<le> j \<and> j \<le> b \<longrightarrow> nc ! j = nc ! a) \<longrightarrow>
      (\<forall>k. a \<le> k \<and> k \<le> b \<longrightarrow> k \<notin> set (pick_peaks ops nc L offset_denom)))"
proof (intro conjI allI impI)
  show "i \<in> set (pick_peaks ops nc L offset_denom) \<longleftrightarrow>
      1 \<le> i \<and> i + 2 \<le> length nc \<and>
      fl_less (nc ! (i - 1)) (nc ! i) \<and> fl_less (nc ! (i + 1)) (nc ! i) \<and>
      fl_less (np_add ops (np_median_filter ops L nc i)
                 (np_multiply ops (np_mean ops nc) offset_denom))
              (nc ! i)"
    by (auto simp: pick_peaks_filter is_peak_def threshold_def Let_def)
next
  fix a b k
  assume reg: "a < b \<and> b < length nc \<and> (\<forall>j. a \<le> j \<and> j \<le> b \<longrightarrow> nc ! j = nc ! a)"
    and k: "a \<le> k \<and> k \<le> b"
  from reg have flat: "nc ! j = nc ! a" if "a \<le> j" "j \<le> b" for j
    using that by blast
  have "nc ! (k - 1) = nc ! k \<or> nc ! (k + 1) = nc ! k"
  proof (cases "k = a")
    case True
    have "a + 1 \<le> b" using reg by linarith
    then have "nc ! (a + 1) = nc ! a" by (intro flat) simp_all
    then show ?thesis using True by simp
  next
    case False
    then have "a \<le> k - 1" "k - 1 \<le> b" using k by linarith+
    then have "nc ! (k - 1) = nc ! a" by (rule flat)
    moreover have "nc ! k = nc ! a" using k by (intro flat) simp_all
    ultimately show ?thesis by simp
  qed
  then show "k \<notin> set (pick_peaks ops nc L offset_denom)"
    using flat_no_peak [of nc k] by (simp add: pick_peaks_filter)
qed

theorem pick_peaks_iff_witness:
  "4 \<in> set (pick_peaks (exact_ops (\<lambda>L nc i. Fin 0))
              [Fin 0, Fin 1, Fin 1, Fin 0, Fin 2, Fin 0, Fin 0, Fin 0] 16 (1 / 2)) \<and>
   (1 :: nat) < 2 \<and> 2 < length [Fin 0, Fin 1, Fin 1, Fin 0, Fin 2, Fin 0, Fin 0, Fin 0] \<and>
   1 \<notin> set (pick_peaks (exact_ops (\<lambda>L nc i. Fin 0))
              [Fin 0, Fin 1, Fin 1, Fin 0, Fin 2, Fin 0, Fin 0, Fin 0] 16 (1 / 2)) \<and>
   2 \<notin> set (pick_peaks (exact_ops (\<lambda>L nc i. Fin 0))
              [Fin 0, Fin 1, Fin 1, Fin 0, Fin 2, Fin 0, Fin 0, Fin 0] 16 (1 / 2))"
proof -
  let ?nc = "[Fin 0, Fin 1, Fin 1, Fin 0, Fin 2, Fin 0, Fin 0, Fin 0]"
  let ?ops = "exact_ops (\<lambda>L nc i. Fin 0)"
  let ?ps = "pick_peaks ?ops ?nc 16 (1 / 2)"
  note t = pick_peaks_iff [of 4 ?ops ?nc 16 "1 / 2"]
  have th: "np_add ?ops (np_median_filter ?ops 16 ?nc 4) (np_multiply ?ops (np_mean ?ops ?nc) (1 / 2))
      = Fin (1 / 4)"
    by (simp add: exact_ops_def fl_mean_def np_div_def)
  have peak: "4 \<in> set ?ps"
    using t unfolding th by simp
  have flat: "\<forall>j. 1 \<le> j \<and> j \<le> 2 \<longrightarrow> ?nc ! j = ?nc ! 1"
  proof (intro allI impI)
    fix j :: nat
    assume "1 \<le> j \<and> j \<le> 2"
    then have "j = 1 \<or> j = 2" by linarith
    then show "?nc ! j = ?nc ! 1" by auto
  qed
  from t have "(1 :: nat) < 2 \<and> 2 < length ?nc \<and> (\<forall>j. 1 \<le> j \<and> j \<le> 2 \<longrightarrow> ?nc ! j = ?nc ! 1)
      \<longrightarrow> (\<forall>k. 1 \<le> k \<and> k \<le> 2 \<longrightarrow> k \<notin> set ?ps)"
    by blast
  with flat have "\<forall>k. 1 \<le> k \<and> k \<le> 2 \<longrightarrow> k \<notin> set ?ps" by simp
  then have "1 \<notin> set ?ps" "2 \<notin> set ?ps" by simp_all
  with peak show ?thesis by simp
qed

text \<open>
  Claim C10. The list \<^verbatim>\<open>pick_peaks\<close> returns is strictly increasing, every index \<open>i\<close>
  in it satisfies \<open>1 \<le> i \<le> n - 2\<close>, and the indices \<open>0\<close> and \<open>n - 1\<close> are never in it.
\<close>

theorem pick_peaks_range:
  "sorted_wrt (<) (pick_peaks ops nc L od) \<and>
   (\<forall>i \<in> set (pick_peaks ops nc L od). 1 \<le> i \<and> i + 2 \<le> length nc) \<and>
   0 \<notin> set (pick_peaks ops nc L od) \<and> length nc - 1 \<notin> set (pick_peaks ops nc L od)"
proof -
  let ?ps = "pick_peaks ops nc L od"
  have eq: "?ps = filter (is_peak nc (threshold ops nc L od)) [1..<length nc - 1]"
    by (rule pick_peaks_filter)
  have "sorted_wrt (<) [1..<length nc - 1]"
    by simp
  then have increasing: "sorted_wrt (<) ?ps"
    unfolding eq by (rule sorted_wrt_filter)
  have range: "1 \<le> i \<and> i + 2 \<le> length nc" if "i \<in> set ?ps" for i
    using that unfolding eq by auto
  have first: "0 \<notin> set ?ps"
    using range [of 0] by auto
  have last: "length nc - 1 \<notin> set ?ps"
    using range [of "length nc - 1"] by auto
  from increasing range first last show ?thesis
    by blast
qed

theorem pick_peaks_range_witness:
  "4 \<in> set (pick_peaks (exact_ops (\<lambda>L nc i. Fin 0))
        [Fin 0, Fin 1, Fin 1, Fin 0, Fin 2, Fin 0] 16 (1 / 10)) \<and>
   (1 :: nat) \<le> 4 \<and> 4 + 2 \<le> length [Fin 0, Fin 1, Fin 1, Fin 0, Fin 2, Fin 0] \<and>
   sorted_wrt (<) (pick_peaks (exact_ops (\<lambda>L nc i. Fin 0))
        [Fin 0, Fin 1, Fin 1, Fin 0, Fin 2, Fin 0] 16 (1 / 10))"
proof -
  let ?nc = "[Fin 0, Fin 1, Fin 1, Fin 0, Fin 2, Fin 0]"
  let ?ps = "pick_peaks (exact_ops (\<lambda>L nc i. Fin 0)) ?nc 16 (1 / 10)"
  have peak: "4 \<in> set ?ps"
    by (simp add: pick_peaks_filter is_peak_def threshold_def exact_ops_def fl_mean_def np_div_def)
  from pick_peaks_range [of "exact_ops (\<lambda>L nc i. Fin 0)" ?nc 16 "1 / 10"] peak
  show ?thesis by simp
qed

section \<open>Properties of the novelty curve\<close>

lemma length_compute_nc_loop [simp]: "length (compute_nc_loop X is nc) = length nc"
  by (induction "is" arbitrary: nc) auto

lemma nth_compute_nc_loop:
  "k < length nc \<Longrightarrow>
   compute_nc_loop X is nc ! k =
     (if k \<in> set is then euclidean (rows X ! k) (rows X ! (k + 1)) else nc ! k)"
  by (induction "is" arbitrary: nc) (auto simp: nth_list_update)

lemma length_distances [simp]: "length (distances X) = nrows X"
  by (simp add: distances_def)

lemma nth_distances:
  "k < nrows X \<Longrightarrow>
   distances X ! k = (if k + 1 < nrows X then euclidean (rows X ! k) (rows X ! (k + 1)) else 0)"
  by (auto simp: distances_def nth_compute_nc_loop)

lemma euclidean_nonneg: "0 \<le> euclidean u v"
  unfolding euclidean_def by (intro real_sqrt_ge_zero sum_list_nonneg) auto

lemma distances_nonneg: "x \<in> set (distances X) \<Longrightarrow> 0 \<le> x"
  by (auto simp: in_set_conv_nth nth_distances euclidean_nonneg)

lemma zero_in_distances: "0 < nrows X \<Longrightarrow> 0 \<in> set (distances X)"
  unfolding in_set_conv_nth
  by (rule exI[of _ "nrows X - 1"]) (simp add: nth_distances)

lemma Min_distances: "0 < nrows X \<Longrightarrow> Min (set (distances X)) = 0"
  by (intro Min_eqI) (auto simp: distances_nonneg zero_in_distances)

lemma distances_ne: "0 < nrows X \<Longrightarrow> distances X \<noteq> []"
proof
  assume pos: "0 < nrows X" and "distances X = []"
  then have "length (distances X) = 0" by (simp only: list.size)
  with pos show False by simp
qed

lemma compute_nc_distances:
  "compute_nc X =
     (if nrows X = 0 then Inl ValueError
      else Inr (map (\<lambda>x. np_div x (Max (set (distances X)))) (distances X)))"
proof (cases "nrows X = 0")
  case True
  then show ?thesis by (simp add: compute_nc_def Let_def)
next
  case False
  then have ne: "distances X \<noteq> []" by (simp add: distances_ne)
  have shift: "map (\<lambda>x. x + \<bar>Min (set (distances X))\<bar>) (distances X) = distances X"
    using False by (simp add: Min_distances)
  have "compute_nc X =
     (if distances X = [] then Inl ValueError
      else let nc' = map (\<lambda>x. x + \<bar>Min (set (distances X))\<bar>) (distances X)
           in Inr (map (\<lambda>x. np_div x (Max (set nc'))) nc'))"
    unfolding compute_nc_def distances_def Let_def by (rule refl)
  then show ?thesis
    using False ne by (simp only: shift Let_def if_False)
qed

text \<open>
  Claim C7. For a structural-feature matrix with at least two rows whose successive rows
  are not all at distance zero, \<^verbatim>\<open>compute_nc\<close> returns a curve of finite values, one
  per row, with minimum \<open>0\<close> and maximum \<open>1\<close>; all its entries lie in \<open>[0, 1]\<close>.
\<close>

theorem compute_nc_normalised:
  assumes "2 \<le> nrows X"
    and "\<exists>i. i + 1 < nrows X \<and> euclidean (rows X ! i) (rows X ! (i + 1)) \<noteq> 0"
  shows "\<exists>nc. compute_nc X = Inr (map Fin nc) \<and> length nc = nrows X \<and>
           Min (set nc) = 0 \<and> Max (set nc) = 1 \<and> (\<forall>x \<in> set nc. 0 \<le> x \<and> x \<le> 1)"
proof -
  let ?d = "distances X"
  let ?M = "Max (set ?d)"
  from assms(2) obtain i where i: "i + 1 < nrows X"
    and nz: "euclidean (rows X ! i) (rows X ! (i + 1)) \<noteq> 0" by blast
  have pos: "0 < nrows X" using assms(1) by simp
  have fin: "finite (set ?d)" and ne: "set ?d \<noteq> {}"
    using distances_ne [OF pos] by auto
  have di: "?d ! i = euclidean (rows X ! i) (rows X ! (i + 1))"
    using i by (simp add: nth_distances)
  have "?d ! i \<in> set ?d" using i by simp
  then have "?d ! i \<le> ?M" by simp
  moreover have "0 < ?d ! i" using nz euclidean_nonneg[of "rows X ! i" "rows X ! (i + 1)"] di by simp
  ultimately have M: "0 < ?M" by linarith
  define nc where "nc = map (\<lambda>x. x / ?M) ?d"
  have res: "compute_nc X = Inr (map Fin nc)"
    using pos M by (simp add: compute_nc_distances nc_def np_div_def)
  have len: "length nc = nrows X" by (simp add: nc_def)
  have set_nc: "set nc = (\<lambda>x. x / ?M) ` set ?d" by (simp add: nc_def)
  have bounds: "0 \<le> x \<and> x \<le> 1" if "x \<in> set nc" for x
  proof -
    from that obtain y where y: "y \<in> set ?d" "x = y / ?M" by (auto simp: set_nc)
    have "0 \<le> y" "y \<le> ?M" using y(1) by (auto simp: distances_nonneg)
    then show ?thesis using M y(2) by simp
  qed
  have "0 \<in> set nc" using zero_in_distances[OF pos] by (force simp: set_nc)
  then have mn: "Min (set nc) = 0"
    by (intro Min_eqI) (auto simp: bounds)
  have "?M \<in> set ?d" using fin ne by (rule Max_in)
  then have "1 \<in> set nc" using M by (force simp: set_nc)
  then have mx: "Max (set nc) = 1"
    by (intro Max_eqI) (auto simp: bounds)
  show ?thesis using res len mn mx bounds by blast
qed

theorem compute_nc_normalised_witness:
  "2 \<le> nrows \<lparr>ncols = 1, rows = [[0], [1], [3]]\<rparr> \<and>
   euclidean (rows \<lparr>ncols = 1, rows = [[0], [1], [3]]\<rparr> ! 0) (rows \<lparr>ncols = 1, rows = [[0], [1], [3]]\<rparr> ! 1) \<noteq> 0 \<and>
   (\<exists>nc. compute_nc \<lparr>ncols = 1, rows = [[0], [1], [3]]\<rparr> = Inr (map Fin nc) \<and> Min (set nc) = 0 \<and> Max (set nc) = 1)"
proof -
  let ?X = "\<lparr>ncols = 1, rows = [[0], [1], [3]]\<rparr>"
  have a: "2 \<le> nrows ?X" by (simp add: nrows_def)
  have e: "euclidean (rows ?X ! 0) (rows ?X ! 1) \<noteq> 0" by (simp add: euclidean_def)
  then have b: "\<exists>i. i + 1 < nrows ?X \<and> euclidean (rows ?X ! i) (rows ?X ! (i + 1)) \<noteq> 0"
    by (intro exI[of _ 0]) (simp add: nrows_def)
  from compute_nc_normalised [OF a b] a e show ?thesis by blast
qed

text \<open>
  Claim C4 states that \<^verbatim>\<open>compute_nc\<close> returns an empty curve, without an exception, for
  a matrix with fewer than two rows. With no row \<^verbatim>\<open>nc.min()\<close> raises \<^verbatim>\<open>ValueError\<close>,
  and with one row the result has one entry, \<^verbatim>\<open>nan\<close>.
\<close>

theorem compute_nc_short_counterexample:
  "compute_nc \<lparr>ncols = 2, rows = []\<rparr> = Inl ValueError \<and>
   compute_nc \<lparr>ncols = 2, rows = [[1, 2]]\<rparr> = Inr [NaN]"
  by (simp add: compute_nc_def nrows_def np_div_def)

text \<open>
  Claim C4, amended. For a matrix with one row \<^verbatim>\<open>compute_nc\<close> returns without an
  exception the one-entry curve \<^verbatim>\<open>[nan]\<close>; for a matrix without rows it raises
  \<^verbatim>\<open>ValueError\<close>.
\<close>

theorem compute_nc_short:
  "(nrows X = 0 \<longrightarrow> compute_nc X = Inl ValueError) \<and>
   (nrows X = 1 \<longrightarrow> compute_nc X = Inr [NaN])"
proof (intro conjI impI)
  assume "nrows X = 0"
  then show "compute_nc X = Inl ValueError" by (simp add: compute_nc_distances)
next
  assume 1: "nrows X = 1"
  then have "distances X = [0]"
    by (intro nth_equalityI) (auto simp: nth_distances)
  then show "compute_nc X = Inr [NaN]"
    using 1 by (simp add: compute_nc_distances np_div_def)
qed

theorem compute_nc_short_witness:
  "nrows \<lparr>ncols = 2, rows = []\<rparr> = 0 \<and> compute_nc \<lparr>ncols = 2, rows = []\<rparr> = Inl ValueError \<and>
   nrows \<lparr>ncols = 2, rows = [[1, 2]]\<rparr> = 1 \<and> compute_nc \<lparr>ncols = 2, rows = [[1, 2]]\<rparr> = Inr [NaN]"
  using compute_nc_short [of "\<lparr>ncols = 2, rows = []\<rparr>"]
    compute_nc_short [of "\<lparr>ncols = 2, rows = [[1, 2]]\<rparr>"]
  by (simp add: nrows_def)

section \<open>Properties of the embedder\<close>

lemma nrows_set_row: "set_row Y i v = Inr Y' \<Longrightarrow> nrows Y' = nrows Y \<and> ncols Y' = ncols Y"
  by (auto simp: set_row_def nrows_def split: if_splits)

lemma embedded_space_loop_shape:
  "embedded_space_loop X m is Y = Inr Y' \<Longrightarrow> nrows Y' = nrows Y \<and> ncols Y' = ncols Y"
proof (induction "is" arbitrary: Y)
  case Nil
  then show ?case by simp
next
  case (Cons i "is")
  then show ?case
    by (auto simp: Let_def split: sum.splits dest!: nrows_set_row)
qed

lemma embedded_space_shape:
  assumes "embedded_space X m = Inr E"
  shows "int (nrows E) = int (nrows X) - \<lceil>m\<rceil>" and "int (ncols E) = \<lceil>real (ncols X) * m\<rceil>"
  using assms embedded_space_loop_shape [of X m _ _ E]
  by (auto simp: embedded_space_def Let_def zeros_def nrows_def split: if_splits)

lemma py_slice_take_drop:
  "int i + k \<le> int (length xs) \<Longrightarrow> 0 \<le> k \<Longrightarrow> py_slice xs (int i) (int i + k) = take (nat k) (drop i xs)"
  by (simp add: py_slice_def Let_def min_def)

lemma py_slice_take: "0 \<le> k \<Longrightarrow> py_slice xs 0 k = take (nat k) xs"
  by (auto simp: py_slice_def Let_def min_def)

lemma py_item_nth: "0 \<le> j \<Longrightarrow> j < int (length xs) \<Longrightarrow> py_item xs j = Inr (xs ! nat j)"
  by (simp add: py_item_def Let_def)

lemma length_concat_rows:
  "\<forall>r \<in> set xs. length r = d \<Longrightarrow> length (concat xs) = length xs * d"
  by (induction xs) auto

lemma embedded_space_step:
  assumes m0: "0 \<le> m" and i: "int i + \<lceil>m\<rceil> < int (nrows X)"
  shows "py_item (rows X) (int i + py_int m) = Inr (rows X ! (i + nat \<lfloor>m\<rfloor>))"
    and "concat (py_slice (rows X) (int i) (int i + py_int m)) @
           py_slice (rows X ! (i + nat \<lfloor>m\<rfloor>)) 0 (py_int (frac m * real (ncols X)))
         = embedded_row X m i"
proof -
  have fl: "0 \<le> \<lfloor>m\<rfloor>" "\<lfloor>m\<rfloor> \<le> \<lceil>m\<rceil>" using m0 by (auto simp: floor_le_ceiling)
  have pi: "py_int m = \<lfloor>m\<rfloor>" using m0 by (simp add: py_int_def)
  have fr: "0 \<le> frac m * real (ncols X)" by (simp add: frac_ge_0)
  then have pr: "py_int (frac m * real (ncols X)) = \<lfloor>frac m * real (ncols X)\<rfloor>"
    by (simp add: py_int_def)
  have idx: "nat (int i + \<lfloor>m\<rfloor>) = i + nat \<lfloor>m\<rfloor>" using fl by (simp add: nat_add_distrib)
  have "0 \<le> int i + \<lfloor>m\<rfloor>" "int i + \<lfloor>m\<rfloor> < int (length (rows X))"
    using fl i unfolding nrows_def by linarith+
  then have "py_item (rows X) (int i + \<lfloor>m\<rfloor>) = Inr (rows X ! nat (int i + \<lfloor>m\<rfloor>))"
    by (rule py_item_nth)
  then show "py_item (rows X) (int i + py_int m) = Inr (rows X ! (i + nat \<lfloor>m\<rfloor>))"
    by (simp only: pi idx)
  have "py_slice (rows X) (int i) (int i + \<lfloor>m\<rfloor>) = take (nat \<lfloor>m\<rfloor>) (drop i (rows X))"
  proof (rule py_slice_take_drop)
    show "int i + \<lfloor>m\<rfloor> \<le> int (length (rows X))"
      using fl i unfolding nrows_def by linarith
    show "0 \<le> \<lfloor>m\<rfloor>" by (rule fl)
  qed
  moreover have "py_slice (rows X ! (i + nat \<lfloor>m\<rfloor>)) 0 \<lfloor>frac m * real (ncols X)\<rfloor>
      = take (nat \<lfloor>frac m * real (ncols X)\<rfloor>) (rows X ! (i + nat \<lfloor>m\<rfloor>))"
    using fr by (intro py_slice_take) simp
  ultimately show "concat (py_slice (rows X) (int i) (int i + py_int m)) @
           py_slice (rows X ! (i + nat \<lfloor>m\<rfloor>)) 0 (py_int (frac m * real (ncols X)))
         = embedded_row X m i"
    by (simp add: pi pr embedded_row_def)
qed

lemma length_embedded_row:
  assumes wf: "wf_ndarray X" and m0: "0 \<le> m" and i: "int i + \<lceil>m\<rceil> < int (nrows X)"
  shows "int (length (embedded_row X m i)) = \<lfloor>m\<rfloor> * int (ncols X) + \<lfloor>frac m * real (ncols X)\<rfloor>"
proof -
  have fl: "0 \<le> \<lfloor>m\<rfloor>" "\<lfloor>m\<rfloor> \<le> \<lceil>m\<rceil>" using m0 by (auto simp: floor_le_ceiling)
  have rowlen: "length r = ncols X" if "r \<in> set (rows X)" for r
    using wf that by (auto simp: wf_ndarray_def list_all_iff)
  have "i + nat \<lfloor>m\<rfloor> < length (rows X)" using fl i by (simp add: nrows_def) linarith
  then have a: "length (take (nat \<lfloor>m\<rfloor>) (drop i (rows X))) = nat \<lfloor>m\<rfloor>"
    and b: "length (rows X ! (i + nat \<lfloor>m\<rfloor>)) = ncols X"
    by (auto intro!: rowlen)
  have "\<forall>r \<in> set (take (nat \<lfloor>m\<rfloor>) (drop i (rows X))). length r = ncols X"
    by (meson in_set_dropD in_set_takeD rowlen)
  then have c: "length (concat (take (nat \<lfloor>m\<rfloor>) (drop i (rows X)))) = nat \<lfloor>m\<rfloor> * ncols X"
    using a length_concat_rows by metis
  have "frac m * real (ncols X) \<le> real (ncols X)"
    using frac_lt_1 [of m] by (simp add: mult_left_le_one_le frac_ge_0 less_imp_le)
  then have d: "\<lfloor>frac m * real (ncols X)\<rfloor> \<le> int (ncols X)" by linarith
  have e: "0 \<le> \<lfloor>frac m * real (ncols X)\<rfloor>" by (simp add: frac_ge_0)
  have f: "nat \<lfloor>frac m * real (ncols X)\<rfloor> \<le> ncols X" using d e by linarith
  show ?thesis
    using fl e f by (simp add: embedded_row_def b c min_absorb2)
qed

lemma whole_width:
  assumes "m * real D \<in> \<int>"
  shows "\<lfloor>m\<rfloor> * int D + \<lfloor>frac m * real D\<rfloor> = \<lceil>real D * m\<rceil>"
    and "real_of_int \<lceil>real D * m\<rceil> = m * real D"
    and "round (frac m * real D) = \<lfloor>frac m * real D\<rfloor>"
proof -
  from assms obtain k :: int where k: "m * real D = of_int k" by (auto elim: Ints_cases)
  have fr: "frac m * real D = of_int (k - \<lfloor>m\<rfloor> * int D)"
    using k by (simp add: frac_def algebra_simps)
  have ce: "\<lceil>real D * m\<rceil> = k"
    using k by (simp add: mult.commute)
  have "\<lfloor>frac m * real D\<rfloor> = k - \<lfloor>m\<rfloor> * int D"
    by (simp only: fr floor_of_int)
  then show "\<lfloor>m\<rfloor> * int D + \<lfloor>frac m * real D\<rfloor> = \<lceil>real D * m\<rceil>"
    by (simp add: ce)
  show "real_of_int \<lceil>real D * m\<rceil> = m * real D"
    using k by (simp add: ce)
  show "round (frac m * real D) = \<lfloor>frac m * real D\<rfloor>"
    by (simp only: fr round_of_int floor_of_int)
qed

lemma embedded_space_loop_rows:
  assumes m0: "0 \<le> m"
    and len: "\<And>i. i < nrows Y \<Longrightarrow> length (embedded_row X m i) = ncols Y"
    and N: "int (nrows Y) + \<lceil>m\<rceil> \<le> int (nrows X)"
    and sub: "set is \<subseteq> {0..<nrows Y}"
  shows "embedded_space_loop X m is Y =
    Inr \<lparr>ncols = ncols Y,
         rows = map (\<lambda>i. if i \<in> set is then embedded_row X m i else rows Y ! i) [0..<nrows Y]\<rparr>"
  using len N sub
proof (induction "is" arbitrary: Y)
  case Nil
  then show ?case by (cases Y) (auto simp: nrows_def intro!: nth_equalityI)
next
  case (Cons i "is")
  let ?Y' = "Y\<lparr>rows := (rows Y)[i := embedded_row X m i]\<rparr>"
  have i: "i < nrows Y" using Cons.prems by simp
  then have ix: "int i + \<lceil>m\<rceil> < int (nrows X)" using Cons.prems(2) by linarith
  have step: "set_row Y i (embedded_row X m i) = Inr ?Y'"
    using Cons.prems(1) [OF i] by (simp add: set_row_def)
  have "embedded_space_loop X m (i # is) Y = embedded_space_loop X m is ?Y'"
    using embedded_space_step [OF m0 ix] step by (simp add: Let_def)
  also have "\<dots> = Inr \<lparr>ncols = ncols ?Y',
         rows = map (\<lambda>k. if k \<in> set is then embedded_row X m k else rows ?Y' ! k) [0..<nrows ?Y']\<rparr>"
  proof (rule Cons.IH)
    show "length (embedded_row X m k) = ncols ?Y'" if "k < nrows ?Y'" for k
      using that Cons.prems(1) [of k] by (simp add: nrows_def)
    show "int (nrows ?Y') + \<lceil>m\<rceil> \<le> int (nrows X)"
      using Cons.prems(2) by (simp add: nrows_def)
    show "set is \<subseteq> {0..<nrows ?Y'}"
      using Cons.prems(3) by (simp add: nrows_def)
  qed
  also have "map (\<lambda>k. if k \<in> set is then embedded_row X m k else rows ?Y' ! k) [0..<nrows ?Y']
     = map (\<lambda>k. if k \<in> set (i # is) then embedded_row X m k else rows Y ! k) [0..<nrows Y]"
    by (auto simp: nrows_def nth_list_update)
  finally show ?case by simp
qed

lemma embedded_space_whole:
  assumes wf: "wf_ndarray X" and m0: "0 \<le> m" and big: "\<lceil>m\<rceil> \<le> int (nrows X)"
    and order: "m \<in> \<int>"
  shows "embedded_space X m =
    Inr \<lparr>ncols = nat \<lceil>real (ncols X) * m\<rceil>,
         rows = map (embedded_row X m) [0..<nrows X - nat \<lceil>m\<rceil>]\<rparr>"
proof -
  let ?N = "nat (int (nrows X) - \<lceil>m\<rceil>)"
  let ?C = "nat \<lceil>real (ncols X) * m\<rceil>"
  have whole: "m * real (ncols X) \<in> \<int>"
    using order by (intro Ints_mult) simp_all
  have c0: "0 \<le> \<lceil>m\<rceil>" using m0 by (simp add: ceiling_le_iff[symmetric] order_trans[OF _ le_of_int_ceiling])
  have C0: "0 \<le> \<lceil>real (ncols X) * m\<rceil>"
    using m0 by (metis ceiling_mono ceiling_zero mult_nonneg_nonneg of_nat_0_le_iff)
  have N: "?N = nrows X - nat \<lceil>m\<rceil>" using c0 big by linarith
  have len: "length (embedded_row X m i) = ncols (zeros ?N ?C)" if "i < nrows (zeros ?N ?C)" for i
  proof -
    from that have "int i + \<lceil>m\<rceil> < int (nrows X)" by (simp add: zeros_def nrows_def)
    from length_embedded_row [OF wf m0 this] whole_width(1) [OF whole]
    have "int (length (embedded_row X m i)) = \<lceil>real (ncols X) * m\<rceil>" by simp
    then show ?thesis using C0 by (simp add: zeros_def)
  qed
  have "embedded_space_loop X m [0..<?N] (zeros ?N ?C) =
    Inr \<lparr>ncols = ncols (zeros ?N ?C),
         rows = map (\<lambda>i. if i \<in> set [0..<?N] then embedded_row X m i else rows (zeros ?N ?C) ! i)
                  [0..<nrows (zeros ?N ?C)]\<rparr>"
  proof (rule embedded_space_loop_rows [OF m0 len])
    show "int (nrows (zeros ?N ?C)) + \<lceil>m\<rceil> \<le> int (nrows X)"
      using big by (simp add: zeros_def nrows_def)
    show "set [0..<?N] \<subseteq> {0..<nrows (zeros ?N ?C)}"
      by (simp add: zeros_def nrows_def)
  qed
  also have "\<dots> = Inr \<lparr>ncols = ?C, rows = map (embedded_row X m) [0..<?N]\<rparr>"
    by (simp add: zeros_def nrows_def)
  finally show ?thesis
    using big C0 by (simp add: embedded_space_def Let_def N)
qed

lemma embedded_space_integer_order:
  assumes wf: "wf_ndarray X" and big: "k \<le> nrows X"
  shows "embedded_space X (real k) =
    Inr \<lparr>ncols = ncols X * k,
         rows = map (\<lambda>i. concat (take k (drop i (rows X)))) [0..<nrows X - k]\<rparr>"
proof -
  have fr: "frac (real k) = 0"
    by (simp add: frac_def)
  have row: "embedded_row X (real k) i = concat (take k (drop i (rows X)))" for i
    unfolding embedded_row_def fr by simp
  have "\<lceil>real (ncols X) * real k\<rceil> = int (ncols X * k)"
    by (metis ceiling_of_nat of_nat_mult)
  then have width: "nat \<lceil>real (ncols X) * real k\<rceil> = ncols X * k"
    by (simp only: nat_int)
  have "embedded_space X (real k) =
    Inr \<lparr>ncols = nat \<lceil>real (ncols X) * real k\<rceil>,
         rows = map (embedded_row X (real k)) [0..<nrows X - nat \<lceil>real k\<rceil>]\<rparr>"
    using big by (intro embedded_space_whole [OF wf]) simp_all
  then show ?thesis
    by (simp add: row width)
qed

lemma embedded_space_100_12_8:
  assumes "wf_ndarray X" and "nrows X = 100" and "ncols X = 12"
  shows "\<exists>Y. embedded_space X 8 = Inr Y \<and> nrows Y = 92 \<and> ncols Y = 96"
  using embedded_space_integer_order [OF assms(1), of 8] assms(2,3)
  by (simp add: nrows_def)

text \<open>
  Claim C5 promises, for every order \<open>m \<ge> 1\<close>, fractional ones included, and more than
  \<open>\<lceil>m\<rceil>\<close> frames, a matrix of \<open>N - \<lceil>m\<rceil>\<close> rows whose row \<open>i\<close> is the block of
  \<open>\<lfloor>m\<rfloor>\<close> frames from \<open>i\<close> followed by a remainder of the next frame. For whole orders the
  code delivers it (\<open>embedded_space_integer_order\<close>; \<open>92 \<times> 96\<close> for \<open>N = 100\<close>,
  \<open>D = 12\<close>, \<open>m = 8\<close>). For \<open>m = 3/2\<close> on three frames of dimension three it raises
  \<^verbatim>\<open>ValueError\<close> instead: the row it builds has \<open>\<lfloor>m \<cdot> D\<rfloor> = 4\<close> entries, the array it
  allocated \<open>\<lceil>m \<cdot> D\<rceil> = 5\<close> columns.
\<close>

theorem embedded_space_fractional_raises:
  "embedded_space \<lparr>ncols = 3, rows = [[1, 2, 3], [4, 5, 6], [7, 8, 9]]\<rparr> (3 / 2) = Inl ValueError"
  by (simp add: embedded_space_def nrows_def zeros_def py_item_def py_slice_def py_int_def set_row_def
      Let_def frac_def)

section \<open>Properties of the segmenter\<close>

lemma shape_transpose_nd [simp]:
  "nrows (transpose_nd X) = ncols X" "ncols (transpose_nd X) = nrows X"
  by (simp_all add: transpose_nd_def nrows_def)

lemma nrows_set_column:
  "length v = nrows X \<Longrightarrow> nrows (set_column X j v) = nrows X"
  by (simp add: set_column_def nrows_def)

lemma length_column [simp]: "length (column X j) = nrows X"
  by (simp add: column_def nrows_def)

lemma length_filter1d [simp]: "length (filter1d gf sigma xs) = length xs"
  by (simp add: filter1d_def)

lemma nrows_gaussian_filter_cols [simp]:
  "nrows (gaussian_filter_cols gf M is X) = nrows X"
  by (induction "is" arbitrary: X) (simp_all add: nrows_set_column)

lemma nrows_gaussian_filter_rows [simp]:
  "nrows (gaussian_filter_rows gf M is X) = nrows X"
  by (induction "is" arbitrary: X) (simp_all add: nrows_def)

lemma nrows_gaussian_filter:
  "gaussian_filter gf X M axis = Inr Y \<Longrightarrow> nrows Y = nrows X"
  by (auto simp: gaussian_filter_def split: if_splits)

lemma length_compute_nc:
  "compute_nc X = Inr nc \<Longrightarrow> length nc = nrows X"
  by (auto simp: compute_nc_distances split: if_splits)

lemma circular_shift_square_of:
  "circular_shift (square_of n f) = Inr (square_of n (\<lambda>i j. f ((i + j) mod n) j))"
  by (subst circular_shift_square) (auto intro!: square_of_cong)

lemma estimate_bounds_short:
  "nrows F \<le> 20 \<Longrightarrow> estimate_bounds ext cfg F = Inr []"
  by (simp add: estimate_bounds_def Let_def)

lemma estimate_bounds_cases:
  assumes "estimate_bounds ext cfg F = Inr bs"
  shows "bs = [] \<or>
    (\<exists>nc. int (length nc) = int (nrows F) - \<lceil>m_embedded cfg\<rceil> \<and>
       bs = map (\<lambda>p. int p + \<lceil>m_embedded cfg / 2\<rceil>)
              (pick_peaks (peak_arith ext) nc (Mp_adaptive cfg) (offset_thres cfg)))"
proof (cases "nrows F > 20")
  case False
  then show ?thesis using assms by (simp add: estimate_bounds_def Let_def)
next
  case True
  let ?m = "m_embedded cfg"
  from assms True obtain E L SF1 SF nc where
    E: "embedded_space F ?m = Inr E"
    and L: "circular_shift (square_of (nrows E)
              (recurrence_matrix ext (transpose_nd E) (k_nearest cfg * real (nrows F)))) = Inr L"
    and SF1: "gaussian_filter (gaussian_filter1d ext) (transpose_nd L) (M_gaussian cfg) 1 = Inr SF1"
    and SF: "gaussian_filter (gaussian_filter1d ext) SF1 1 0 = Inr SF"
    and nc: "compute_nc SF = Inr nc"
    and bs: "bs = map (\<lambda>p. int p + \<lceil>?m / 2\<rceil>)
              (pick_peaks (peak_arith ext) nc (Mp_adaptive cfg) (offset_thres cfg))"
    by (auto simp: estimate_bounds_def Let_def split: sum.splits)
  from L have "L = square_of (nrows E) (\<lambda>i j. recurrence_matrix ext (transpose_nd E)
       (k_nearest cfg * real (nrows F)) ((i + j) mod nrows E) j)"
    by (simp add: circular_shift_square_of)
  then have "ncols L = nrows E" by simp
  then have "nrows SF = nrows E"
    using nrows_gaussian_filter [OF SF] nrows_gaussian_filter [OF SF1] by simp
  then have "length nc = nrows E" using length_compute_nc [OF nc] by simp
  then have "int (length nc) = int (nrows F) - \<lceil>?m\<rceil>"
    using embedded_space_shape(1) [OF E] by simp
  with bs show ?thesis by blast
qed

lemma estimate_bounds_range:
  assumes bs: "estimate_bounds ext cfg F = Inr bs" and m: "0 < m_embedded cfg"
  shows "sorted_wrt (<) bs \<and> (\<forall>b \<in> set bs. 0 < b \<and> b + 1 < int (nrows F))"
proof -
  let ?m = "m_embedded cfg"
  let ?c = "\<lceil>?m / 2\<rceil>"
  from estimate_bounds_cases [OF bs] show ?thesis
  proof
    assume "bs = []"
    then show ?thesis by simp
  next
    assume "\<exists>nc. int (length nc) = int (nrows F) - \<lceil>?m\<rceil> \<and>
       bs = map (\<lambda>p. int p + ?c)
              (pick_peaks (peak_arith ext) nc (Mp_adaptive cfg) (offset_thres cfg))"
    then obtain nc where len: "int (length nc) = int (nrows F) - \<lceil>?m\<rceil>"
      and eq: "bs = map (\<lambda>p. int p + ?c)
              (pick_peaks (peak_arith ext) nc (Mp_adaptive cfg) (offset_thres cfg))"
      by blast
    let ?ps = "pick_peaks (peak_arith ext) nc (Mp_adaptive cfg) (offset_thres cfg)"
    have ps: "sorted_wrt (<) ?ps" "\<And>p. p \<in> set ?ps \<Longrightarrow> 1 \<le> p \<and> p + 2 \<le> length nc"
      by (auto simp: pick_peaks_filter sorted_wrt_filter)
    have c0: "0 \<le> ?c" using m by (simp add: ceiling_le_iff[symmetric]) 
    have "?m / 2 \<le> ?m" using m by simp
    then have c1: "?c \<le> \<lceil>?m\<rceil>" by (rule ceiling_mono)
    have s: "sorted_wrt (<) bs"
      unfolding eq sorted_wrt_map using ps(1) by (rule sorted_wrt_mono_rel[rotated]) simp
    have r: "0 < b \<and> b + 1 < int (nrows F)" if "b \<in> set bs" for b
    proof -
      from that obtain p where p: "p \<in> set ?ps" "b = int p + ?c" by (auto simp: eq)
      from ps(2) [OF p(1)] have "1 \<le> int p" "int p + 2 \<le> int (length nc)" by linarith+
      then show ?thesis using c0 c1 len p(2) by linarith
    qed
    show ?thesis using s r by blast
  qed
qed

lemma process_est_Inr:
  assumes "process_est ext cfg F frame_times dur = Inr (est_times, est_labels)"
  obtains bs where "estimate_bounds ext cfg F = Inr bs"
    and "collect (py_item frame_times) (0 # bs @ [int (length frame_times) - 1])
           = Inr (butlast (tl est_times))"
    and "est_times = 0 # butlast (tl est_times) @ [dur]"
    and "est_labels = replicate (length est_times - 1) (- 1)"
  using assms by (auto simp: process_est_def Let_def split: sum.splits)

lemma collect_py_item:
  assumes "\<forall>j \<in> set js. 0 \<le> j \<and> j < int (length xs)"
  shows "collect (py_item xs) js = Inr (map (\<lambda>j. xs ! nat j) js)"
  by (rule collect_total) (use assms in \<open>simp add: py_item_nth\<close>)

lemma sorted_nth_map:
  assumes xs: "sorted_wrt (<) (xs :: real list)" and js: "sorted_wrt (<) js"
    and range: "\<forall>j \<in> set js. 0 \<le> j \<and> j < int (length xs)"
  shows "sorted_wrt (<) (map (\<lambda>j. xs ! nat j) js)"
  unfolding sorted_wrt_map
proof (rule sorted_wrt_mono_rel [OF _ js])
  fix a b
  assume "a \<in> set js" "b \<in> set js" "a < b"
  then have "nat a < nat b" "nat b < length xs" using range by auto
  then show "xs ! nat a < xs ! nat b" using xs by (simp add: sorted_wrt_nth_less)
qed

lemma strict_sorted_bounds:
  assumes xs: "sorted_wrt (<) (xs :: real list)" and k: "k < length xs"
  shows "hd xs \<le> xs ! k \<and> xs ! k \<le> last xs"
proof -
  have ne: "xs \<noteq> []" using k by auto
  have lo: "xs ! 0 \<le> xs ! k"
  proof (cases "k = 0")
    case False
    then have "xs ! 0 < xs ! k" using k by (intro sorted_wrt_nth_less [OF xs]) simp_all
    then show ?thesis by simp
  qed simp
  have hi: "xs ! k \<le> xs ! (length xs - 1)"
  proof (cases "k = length xs - 1")
    case False
    then have "k < length xs - 1" using k by linarith
    then have "xs ! k < xs ! (length xs - 1)"
      using k by (intro sorted_wrt_nth_less [OF xs]) simp_all
    then show ?thesis by simp
  qed simp
  show ?thesis using lo hi ne by (simp add: hd_conv_nth last_conv_nth)
qed

lemma sorted_wrt_sentinels:
  fixes ts :: "real list"
  assumes "sorted_wrt (<) ts" and "\<And>t. t \<in> set ts \<Longrightarrow> lo < t \<and> t < hi" and "ts \<noteq> []"
  shows "sorted_wrt (<) (lo # ts @ [hi])"
proof -
  from assms(3) obtain t where t: "t \<in> set ts" by (cases ts) auto
  from assms(2) [OF t] have "lo < hi" by linarith
  with assms(1,2) show ?thesis by (simp add: sorted_wrt_append)
qed

lemma process_est_strict:
  assumes est: "process_est ext cfg F frame_times dur = Inr (est_times, est_labels)"
    and ft: "sorted_wrt (<) frame_times" and len2: "2 \<le> length frame_times"
    and lenN: "nrows F \<le> length frame_times"
    and lo: "0 < hd frame_times" and hi: "last frame_times < dur" and m: "0 < m_embedded cfg"
  shows "sorted_wrt (<) est_times"
proof -
  let ?n = "int (length frame_times)"
  from est obtain bs where bs: "estimate_bounds ext cfg F = Inr bs"
    and coll: "collect (py_item frame_times) (0 # bs @ [?n - 1]) = Inr (butlast (tl est_times))"
    and ts: "est_times = 0 # butlast (tl est_times) @ [dur]"
    by (rule process_est_Inr)
  let ?js = "0 # bs @ [?n - 1]"
  from estimate_bounds_range [OF bs m]
  have sb: "sorted_wrt (<) bs" and rb: "\<And>b. b \<in> set bs \<Longrightarrow> 0 < b \<and> b + 1 < int (nrows F)"
    by blast+
  have rb': "0 < b \<and> b < ?n - 1" if "b \<in> set bs" for b
    using rb [OF that] lenN by linarith
  have range: "\<forall>j \<in> set ?js. 0 \<le> j \<and> j < ?n"
  proof
    fix j
    assume "j \<in> set ?js"
    then consider "j = 0" | "j \<in> set bs" | "j = ?n - 1" by auto
    then show "0 \<le> j \<and> j < ?n"
    proof cases
      case 2
      from rb' [OF this] show ?thesis by linarith
    qed (use len2 in auto)
  qed
  have sj: "sorted_wrt (<) ?js"
    using sb rb' len2 by (auto simp: sorted_wrt_append)
  let ?ts = "map (\<lambda>j. frame_times ! nat j) ?js"
  have "collect (py_item frame_times) ?js = Inr ?ts"
    using range by (rule collect_py_item)
  with coll have mid: "butlast (tl est_times) = ?ts" by simp
  have st: "sorted_wrt (<) ?ts"
    using ft sj range by (rule sorted_nth_map)
  have bnd: "0 < t \<and> t < dur" if "t \<in> set ?ts" for t
  proof -
    from that have "t \<in> (\<lambda>j. frame_times ! nat j) ` set ?js"
      by (simp only: set_map)
    then obtain j where "j \<in> set ?js" "t = frame_times ! nat j" by blast
    with range have "0 \<le> j \<and> j < ?n" by blast
    then have "nat j < length frame_times" by linarith
    from strict_sorted_bounds [OF ft this] lo hi \<open>t = frame_times ! nat j\<close>
    show ?thesis by linarith
  qed
  have "?ts \<noteq> []" by simp
  with st bnd have "sorted_wrt (<) (0 # ?ts @ [dur])"
    by (intro sorted_wrt_sentinels) blast+
  then show ?thesis
    using ts mid by simp
qed

lemma process_est_short_eq:
  assumes "nrows F \<le> 20" and "frame_times \<noteq> []"
  shows "process_est ext cfg F frame_times dur =
           Inr ([0, hd frame_times, last frame_times, dur], [- 1, - 1, - 1])"
proof -
  let ?n = "int (length frame_times)"
  have pos: "0 < ?n" using assms(2) by simp
  have "collect (py_item frame_times) [0, ?n - 1]
          = Inr (map (\<lambda>j. frame_times ! nat j) [0, ?n - 1])"
    using pos by (intro collect_py_item) simp
  moreover have "nat (?n - 1) = length frame_times - 1"
    by arith
  then have "frame_times ! nat (?n - 1) = last frame_times"
    using last_conv_nth [OF assms(2)] by simp
  moreover have "frame_times ! 0 = hd frame_times"
    using assms(2) by (simp add: hd_conv_nth)
  ultimately have "collect (py_item frame_times) [0, ?n - 1]
          = Inr [hd frame_times, last frame_times]"
    by simp
  then show ?thesis
    using assms(1) by (simp add: process_est_def estimate_bounds_short Let_def numeral_3_eq_3)
qed

lemma process_est_no_frame_times:
  "(\<exists>e. process_est ext cfg F [] dur = Inl e) \<and>
   (nrows F \<le> 20 \<longrightarrow> process_est ext cfg F [] dur = Inl IndexError)"
  by (cases "estimate_bounds ext cfg F")
     (auto simp: process_est_def estimate_bounds_short py_item_def)

lemma estimate_bounds_returns:
  assumes wf: "wf_ndarray F" and m: "m_embedded cfg = real k" and k: "k < nrows F"
  shows "\<exists>bs. estimate_bounds ext cfg F = Inr bs"
proof (cases "nrows F > 20")
  case False
  then show ?thesis by (simp add: estimate_bounds_short)
next
  case True
  define E where "E = \<lparr>ncols = ncols F * k,
         rows = map (\<lambda>i. concat (take k (drop i (rows F)))) [0..<nrows F - k]\<rparr>"
  have E: "embedded_space F (m_embedded cfg) = Inr E"
    unfolding m E_def using k by (intro embedded_space_integer_order [OF wf]) simp
  have nE: "nrows E = nrows F - k" by (simp add: E_def nrows_def)
  define L where "L = square_of (nrows E) (\<lambda>i j. recurrence_matrix ext (transpose_nd E)
       (k_nearest cfg * real (nrows F)) ((i + j) mod nrows E) j)"
  have L: "circular_shift (square_of (nrows E)
              (recurrence_matrix ext (transpose_nd E) (k_nearest cfg * real (nrows F)))) = Inr L"
    by (simp add: L_def circular_shift_square_of)
  define SF1 where
    "SF1 = gaussian_filter_cols (gaussian_filter1d ext) (M_gaussian cfg)
             [0..<ncols (transpose_nd L)] (transpose_nd L)"
  define SF where "SF = gaussian_filter_rows (gaussian_filter1d ext) 1 [0..<nrows SF1] SF1"
  have SF1: "gaussian_filter (gaussian_filter1d ext) (transpose_nd L) (M_gaussian cfg) 1 = Inr SF1"
    by (simp add: gaussian_filter_def SF1_def)
  have SF: "gaussian_filter (gaussian_filter1d ext) SF1 1 0 = Inr SF"
    by (simp add: gaussian_filter_def SF_def)
  have "nrows SF = nrows E"
    by (simp add: SF_def SF1_def L_def)
  then have "nrows SF \<noteq> 0" using nE k by simp
  then obtain nc where nc: "compute_nc SF = Inr nc"
    by (simp add: compute_nc_distances)
  show ?thesis
    using True E L SF1 SF nc by (simp add: estimate_bounds_def Let_def)
qed

lemma process_est_returns:
  assumes wf: "wf_ndarray F" and m: "m_embedded cfg = real k" and k: "0 < k" "k < nrows F"
    and len: "nrows F \<le> length frame_times"
  shows "\<exists>est_times est_labels.
           process_est ext cfg F frame_times dur = Inr (est_times, est_labels)"
proof -
  let ?n = "int (length frame_times)"
  from estimate_bounds_returns [OF wf m k(2)] obtain bs where
    bs: "estimate_bounds ext cfg F = Inr bs" by blast
  have "0 < m_embedded cfg" using m k(1) by simp
  from estimate_bounds_range [OF bs this]
  have rb: "\<And>b. b \<in> set bs \<Longrightarrow> 0 < b \<and> b + 1 < int (nrows F)" by blast
  have pos: "0 < ?n" using k len by linarith
  have "\<forall>j \<in> set (0 # bs @ [?n - 1]). 0 \<le> j \<and> j < ?n"
  proof
    fix j
    assume "j \<in> set (0 # bs @ [?n - 1])"
    then consider "j = 0" | "j \<in> set bs" | "j = ?n - 1" by auto
    then show "0 \<le> j \<and> j < ?n"
    proof cases
      case 2
      from rb [OF this] len show ?thesis by linarith
    qed (use pos in auto)
  qed
  then have "collect (py_item frame_times) (0 # bs @ [?n - 1])
      = Inr (map (\<lambda>j. frame_times ! nat j) (0 # bs @ [?n - 1]))"
    by (rule collect_py_item)
  then show ?thesis
    using bs by (simp add: process_est_def Let_def)
qed

text \<open>
  Claim C2 states that for at most 20 frames \<^verbatim>\<open>process\<close> returns the two boundaries
  \<open>[0.0, duration]\<close> and one label. The stages are skipped, but the first and the last
  frame time are added all the same: ten frames from \<open>0.5\<close> to \<open>5.0\<close> in a track of
  \<open>6.0\<close> seconds give four boundaries and three labels.
\<close>

theorem process_short_track_counterexample:
  "process identity_external
     \<lparr>Mp_adaptive = 16, offset_thres = 1 / 10, M_gaussian = 9, m_embedded = 8, k_nearest = 1 / 25\<rparr>
     \<lparr>ncols = 2, rows = replicate 10 [0, 0]\<rparr>
     [1 / 2, 1, 3 / 2, 2, 5 / 2, 3, 7 / 2, 4, 9 / 2, 5] 6
   = Inr ([0, 1 / 2, 5, 6], [- 1, - 1, - 1])"
  by (simp add: process_def process_est_def estimate_bounds_def nrows_def identity_external_def
      py_item_def Let_def numeral_3_eq_3)

text \<open>
  Claim C2, amended. For a feature matrix of at most 20 frames and frame times that are
  not empty, \<^verbatim>\<open>process\<close> skips the stages from the embedding to the peak picking and
  returns what \<^verbatim>\<open>_postprocess\<close> makes of the four times \<open>0.0\<close>, \<^verbatim>\<open>frame_times[0]\<close>,
  \<^verbatim>\<open>frame_times[-1]\<close>, duration and of three labels \<open>-1\<close>, whatever the configuration
  and the functions from outside.
\<close>

theorem process_short_track:
  assumes "nrows F \<le> 20" and "frame_times \<noteq> []"
  shows "process ext cfg F frame_times dur =
           postprocess ext [0, hd frame_times, last frame_times, dur] [- 1, - 1, - 1]"
  using process_est_short_eq [OF assms] by (simp add: process_def)

theorem process_short_track_witness:
  "nrows \<lparr>ncols = 2, rows = replicate 10 [0, 0]\<rparr> \<le> 20 \<and>
   [1 / 2, 1, 3 / 2, 2, 5 / 2, 3, 7 / 2, 4, 9 / 2, 5 :: real] \<noteq> [] \<and>
   process identity_external
     \<lparr>Mp_adaptive = 24, offset_thres = 1 / 25, M_gaussian = 16, m_embedded = 3, k_nearest = 3 / 50\<rparr>
     \<lparr>ncols = 2, rows = replicate 10 [0, 0]\<rparr>
     [1 / 2, 1, 3 / 2, 2, 5 / 2, 3, 7 / 2, 4, 9 / 2, 5] 6
   = Inr ([0, 1 / 2, 5, 6], [- 1, - 1, - 1])"
proof -
  have a: "nrows \<lparr>ncols = 2, rows = replicate 10 [0, 0]\<rparr> \<le> 20"
    by (simp add: nrows_def)
  have b: "[1 / 2, 1, 3 / 2, 2, 5 / 2, 3, 7 / 2, 4, 9 / 2, 5 :: real] \<noteq> []"
    by simp
  from process_short_track [OF a b, of identity_external _ 6] a b
  show ?thesis by (simp add: identity_external_def)
qed

section \<open>Properties of the returned segmentation\<close>

lemma estimate_bounds_postprocess [simp]:
  "estimate_bounds (ext\<lparr>postprocess := p\<rparr>) cfg F = estimate_bounds ext cfg F"
  by (simp add: estimate_bounds_def Let_def cong: sum.case_cong)

lemma process_est_postprocess [simp]:
  "process_est (ext\<lparr>postprocess := p\<rparr>) cfg F frame_times dur = process_est ext cfg F frame_times dur"
  by (simp add: process_est_def)

lemma segment_process_est:
  "segment ext cfg F frame_times dur =
     (case process_est ext cfg F frame_times dur of
        Inl e \<Rightarrow> Inl e
      | Inr (est_times, est_labels) \<Rightarrow> postprocess_spec est_times est_labels)"
  by (simp add: segment_def process_def split: sum.splits)


lemma segment_returns:
  assumes "process_est ext cfg F frame_times dur = Inr (est_times, est_labels)"
  shows "\<exists>boundary_times labels. segment ext cfg F frame_times dur = Inr (boundary_times, labels)"
  using assms by (simp add: segment_process_est postprocess_spec_def Let_def)

lemma segment_no_frame_times:
  "\<exists>e. segment ext cfg F [] dur = Inl e"
  using process_est_no_frame_times [of ext cfg F dur]
  by (auto simp: segment_process_est)
















end
